theory Spec2Isabelle
  imports Main "HOL-Library.Char_ord" "HOL-Library.List_Lexorder" "HOL-Library.Sublist"
begin

section \<open>Characters and strings of the converter\<close>

text \<open>
  The converter (\<^verbatim>\<open>Convert/pdf_to_obsidian_converter.py\<close>) works on Python \<^verbatim>\<open>str\<close>
  values. A text is modelled as a \<^typ>\<open>string\<close> with one \<^typ>\<open>char\<close> per code point, so
  the texts covered are those over the code points U+0000 to U+00FF. The character
  classes below are the ones of Python's \<^verbatim>\<open>str\<close> methods and of the \<^verbatim>\<open>re\<close> module
  on that range.
\<close>

definition in_range :: "char \<Rightarrow> char \<Rightarrow> char \<Rightarrow> bool" where
  \<comment> \<open>the code point of \<open>c\<close> lies between those of \<open>a\<close> and \<open>b\<close>\<close>
  "in_range a b c \<longleftrightarrow> a \<le> c \<and> c \<le> b"

definition is_space :: "char \<Rightarrow> bool" where
  \<comment> \<open>\<^verbatim>\<open>str.isspace\<close>, the class \<^verbatim>\<open>\s\<close>\<close>
  "is_space c \<longleftrightarrow> in_range (CHR 0x09) (CHR 0x0D) c \<or> in_range (CHR 0x1C) (CHR 0x20) c
     \<or> c = CHR 0x85 \<or> c = CHR 0xA0"

definition is_digit :: "char \<Rightarrow> bool" where
  \<comment> \<open>the class \<^verbatim>\<open>\d\<close>\<close>
  "is_digit c \<longleftrightarrow> in_range CHR ''0'' CHR ''9'' c"

definition is_word :: "char \<Rightarrow> bool" where
  \<comment> \<open>the class \<^verbatim>\<open>\w\<close>: alphanumeric characters and the underscore\<close>
  "is_word c \<longleftrightarrow> in_range CHR ''0'' CHR ''9'' c \<or> in_range CHR ''A'' CHR ''Z'' c
     \<or> c = CHR ''_'' \<or> in_range CHR ''a'' CHR ''z'' c
     \<or> c = CHR 0xAA \<or> c = CHR 0xB2 \<or> c = CHR 0xB3 \<or> c = CHR 0xB5
     \<or> c = CHR 0xB9 \<or> c = CHR 0xBA \<or> in_range (CHR 0xBC) (CHR 0xBE) c
     \<or> in_range (CHR 0xC0) (CHR 0xD6) c \<or> in_range (CHR 0xD8) (CHR 0xF6) c
     \<or> in_range (CHR 0xF8) (CHR 0xFF) c"

definition is_upper :: "char \<Rightarrow> bool" where
  \<comment> \<open>the characters that \<^verbatim>\<open>str.lower\<close> changes\<close>
  "is_upper c \<longleftrightarrow> in_range CHR ''A'' CHR ''Z'' c \<or> in_range (CHR 0xC0) (CHR 0xD6) c
     \<or> in_range (CHR 0xD8) (CHR 0xDE) c"

fun plus32 :: "char \<Rightarrow> char" where
  \<comment> \<open>the character 32 code points up, for a character whose bit of weight 32 is
      clear (as it is in every upper-case character)\<close>
  "plus32 (Char b0 b1 b2 b3 b4 b5 b6 b7) = Char b0 b1 b2 b3 b4 True b6 b7"

definition lower_chr :: "char \<Rightarrow> char" where
  \<comment> \<open>\<^verbatim>\<open>str.lower\<close> on one character\<close>
  "lower_chr c = (if is_upper c then plus32 c else c)"

fun minus32 :: "char \<Rightarrow> char" where
  "minus32 (Char b0 b1 b2 b3 b4 b5 b6 b7) = Char b0 b1 b2 b3 b4 False b6 b7"

definition is_lowered :: "char \<Rightarrow> bool" where
  \<comment> \<open>the characters that are the lowered form of an upper-case character\<close>
  "is_lowered c \<longleftrightarrow> in_range CHR ''a'' CHR ''z'' c \<or> in_range (CHR 0xE0) (CHR 0xF6) c
     \<or> in_range (CHR 0xF8) (CHR 0xFE) c"

definition lower :: "string \<Rightarrow> string" where
  "lower s = map lower_chr s"

definition strip :: "string \<Rightarrow> string" where
  \<comment> \<open>\<^verbatim>\<open>str.strip()\<close>\<close>
  "strip s = rev (dropWhile is_space (rev (dropWhile is_space s)))"

definition rstrip_chr :: "char \<Rightarrow> string \<Rightarrow> string" where
  \<comment> \<open>\<^verbatim>\<open>s.rstrip(c)\<close> for a one-character argument\<close>
  "rstrip_chr c s = rev (dropWhile (\<lambda>x. x = c) (rev s))"

fun startswith :: "string \<Rightarrow> string \<Rightarrow> bool" where
  "startswith s [] = True"
| "startswith [] (p # ps) = False"
| "startswith (c # s) (p # ps) = (c = p \<and> startswith s ps)"

definition startswith_any :: "string \<Rightarrow> string list \<Rightarrow> bool" where
  \<comment> \<open>\<^verbatim>\<open>s.startswith(tuple)\<close>\<close>
  "startswith_any s ps = list_ex (startswith s) ps"

fun contains :: "string \<Rightarrow> string \<Rightarrow> bool" where
  \<comment> \<open>\<^verbatim>\<open>k in s\<close> on strings\<close>
  "contains [] k = (k = [])"
| "contains (c # s) k = (startswith (c # s) k \<or> contains s k)"

fun split_chr :: "char \<Rightarrow> string \<Rightarrow> string list" where
  \<comment> \<open>\<^verbatim>\<open>s.split(sep)\<close> for a one-character separator\<close>
  "split_chr sep [] = [[]]"
| "split_chr sep (c # s) =
     (if c = sep then [] # split_chr sep s
      else (case split_chr sep s of [] \<Rightarrow> [[c]] | w # ws \<Rightarrow> (c # w) # ws))"

fun join :: "string \<Rightarrow> string list \<Rightarrow> string" where
  \<comment> \<open>\<^verbatim>\<open>sep.join(xs)\<close>\<close>
  "join sep [] = []"
| "join sep [x] = x"
| "join sep (x # y # xs) = x @ sep @ join sep (y # xs)"

definition replace_chr :: "char \<Rightarrow> char \<Rightarrow> string \<Rightarrow> string" where
  \<comment> \<open>\<^verbatim>\<open>s.replace(a, b)\<close> for one-character arguments\<close>
  "replace_chr a b s = map (\<lambda>c. if c = a then b else c) s"

section \<open>Regular expressions\<close>

text \<open>
  The patterns of the source are values of \<open>re\<close>. Every repetition in them is over a
  single character class, which is what \<open>Rep\<close> holds: greedy or lazy, the least and
  the greatest count (\<open>None\<close> for no bound), and the class.
\<close>

datatype flag = IGNORECASE | MULTILINE | DOTALL

datatype citem = Lit char | Range char char | Digit | Space | Word

datatype cset = In "citem list" | NotIn "citem list" | Dot

datatype re =
    Chr cset
  | Eps
  | Cat re re
  | Alt re re
  | Rep bool nat "nat option" cset
  | Grp nat re
  | Look re
  | Bol
  | Eol

fun seq :: "re list \<Rightarrow> re" where
  "seq [] = Eps"
| "seq [r] = r"
| "seq (r # rs) = Cat r (seq rs)"

fun alts :: "re list \<Rightarrow> re" where
  "alts [] = Eps"
| "alts [r] = r"
| "alts (r # rs) = Alt r (alts rs)"

definition lit :: "string \<Rightarrow> re" where
  "lit s = seq (map (\<lambda>c. Chr (In [Lit c])) s)"

abbreviation star :: "cset \<Rightarrow> re" where "star cs \<equiv> Rep True 0 None cs"
abbreviation plus :: "cset \<Rightarrow> re" where "plus cs \<equiv> Rep True 1 None cs"
abbreviation opt :: "cset \<Rightarrow> re" where "opt cs \<equiv> Rep True 0 (Some 1) cs"
abbreviation lazy_star :: "cset \<Rightarrow> re" where "lazy_star cs \<equiv> Rep False 0 None cs"

text \<open>
  A character against a class. With \<^verbatim>\<open>IGNORECASE\<close> the matcher lowers the character and
  tests it against the lowered class, as the engine of \<^verbatim>\<open>re\<close> does.
\<close>

definition range_ic :: "char \<Rightarrow> char \<Rightarrow> char \<Rightarrow> bool" where
  \<comment> \<open>\<open>c\<close> is the lowered form of a character between \<open>a\<close> and \<open>b\<close>\<close>
  "range_ic a b c \<longleftrightarrow> (\<exists>x. in_range a b x \<and> lower_chr x = c)"

fun item_match :: "bool \<Rightarrow> citem \<Rightarrow> char \<Rightarrow> bool" where
  "item_match ic (Lit p) c = (c = (if ic then lower_chr p else p))"
| "item_match ic (Range a b) c = (if ic then range_ic a b c else in_range a b c)"
| "item_match ic Digit c = is_digit c"
| "item_match ic Space c = is_space c"
| "item_match ic Word c = is_word c"

definition items_match :: "flag list \<Rightarrow> citem list \<Rightarrow> char \<Rightarrow> bool" where
  "items_match f its c =
     (let ic = (IGNORECASE \<in> set f); c' = (if ic then lower_chr c else c)
      in list_ex (\<lambda>it. item_match ic it c') its)"

fun cset_match :: "flag list \<Rightarrow> cset \<Rightarrow> char \<Rightarrow> bool" where
  "cset_match f (In its) c = items_match f its c"
| "cset_match f (NotIn its) c = (\<not> items_match f its c)"
| "cset_match f Dot c = (DOTALL \<in> set f \<or> c \<noteq> CHR 0x0A)"

text \<open>How the lowered form of a range is computed.\<close>

lemma upper_plus32:
  "is_upper x \<Longrightarrow> minus32 (plus32 x) = x \<and> is_lowered (plus32 x) \<and> plus32 x \<noteq> x"
  by (cases x) (auto simp: is_upper_def is_lowered_def in_range_def)

lemma lowered_minus32: "is_lowered c \<Longrightarrow> plus32 (minus32 c) = c \<and> is_upper (minus32 c)"
  by (cases c) (auto simp: is_upper_def is_lowered_def in_range_def)

lemma lower_chr_eq:
  "lower_chr x = c \<longleftrightarrow> (x = c \<and> \<not> is_upper c) \<or> (is_lowered c \<and> x = minus32 c)"
proof (cases "is_upper x")
  case True
  then show ?thesis
    using upper_plus32 [of x] lowered_minus32 [of c] by (auto simp: lower_chr_def)
next
  case False
  then show ?thesis
    using lowered_minus32 [of c] by (auto simp: lower_chr_def)
qed

lemma range_ic_code [code]:
  "range_ic a b c \<longleftrightarrow>
     (in_range a b c \<and> \<not> is_upper c) \<or> (is_lowered c \<and> in_range a b (minus32 c))"
  by (auto simp: range_ic_def lower_chr_eq)

text \<open>
  The state of a match attempt: the position in the text, the character before it
  (none at the start of the text), the text from the position on, and the groups
  closed so far, each with the positions where it starts and ends.
\<close>

datatype mstate = St (pos: nat) (prev: "char option") (rest: string)
  (marks: "(nat \<times> nat \<times> nat) list")

function rep_greedy :: "flag list \<Rightarrow> cset \<Rightarrow> nat \<Rightarrow> nat option \<Rightarrow> (mstate \<Rightarrow> 'a option)
    \<Rightarrow> mstate \<Rightarrow> 'a option" where
  "rep_greedy f cs mn mx k (St i p [] g) = (if mn = 0 then k (St i p [] g) else None)"
| "rep_greedy f cs mn mx k (St i p (c # s) g) =
     (if mx \<noteq> Some 0 \<and> cset_match f cs c then
        (case rep_greedy f cs (mn - 1) (map_option (\<lambda>n. n - 1) mx) k (St (Suc i) (Some c) s g) of
           Some r \<Rightarrow> Some r
         | None \<Rightarrow> if mn = 0 then k (St i p (c # s) g) else None)
      else if mn = 0 then k (St i p (c # s) g) else None)"
  by pat_completeness auto
termination
  by (relation "measure (\<lambda>(f, cs, mn, mx, k, st). length (rest st))") auto

function rep_lazy :: "flag list \<Rightarrow> cset \<Rightarrow> nat \<Rightarrow> nat option \<Rightarrow> (mstate \<Rightarrow> 'a option)
    \<Rightarrow> mstate \<Rightarrow> 'a option" where
  "rep_lazy f cs mn mx k (St i p [] g) = (if mn = 0 then k (St i p [] g) else None)"
| "rep_lazy f cs mn mx k (St i p (c # s) g) =
     (case (if mn = 0 then k (St i p (c # s) g) else None) of
        Some r \<Rightarrow> Some r
      | None \<Rightarrow>
          if mx \<noteq> Some 0 \<and> cset_match f cs c
          then rep_lazy f cs (mn - 1) (map_option (\<lambda>n. n - 1) mx) k (St (Suc i) (Some c) s g)
          else None)"
  by pat_completeness auto
termination
  by (relation "measure (\<lambda>(f, cs, mn, mx, k, st). length (rest st))") auto

text \<open>
  The backtracking matcher, in continuation-passing style: \<open>k\<close> is the rest of the
  pattern, and \<open>None\<close> from it makes the matcher try its next alternative.
\<close>

fun m :: "flag list \<Rightarrow> re \<Rightarrow> (mstate \<Rightarrow> mstate option) \<Rightarrow> mstate \<Rightarrow> mstate option" where
  "m f (Chr cs) k (St i p [] g) = None"
| "m f (Chr cs) k (St i p (c # s) g) =
     (if cset_match f cs c then k (St (Suc i) (Some c) s g) else None)"
| "m f Eps k st = k st"
| "m f (Cat a b) k st = m f a (\<lambda>st'. m f b k st') st"
| "m f (Alt a b) k st = (case m f a k st of Some r \<Rightarrow> Some r | None \<Rightarrow> m f b k st)"
| "m f (Rep gr mn mx cs) k st =
     (if gr then rep_greedy f cs mn mx k st else rep_lazy f cs mn mx k st)"
| "m f (Grp n r) k st =
     m f r (\<lambda>st'. k (St (pos st') (prev st') (rest st') ((n, pos st, pos st') # marks st'))) st"
| "m f (Look r) k st =
     (case m f r Some st of
        None \<Rightarrow> None
      | Some st' \<Rightarrow> k (St (pos st) (prev st) (rest st) (marks st')))"
| "m f Bol k st =
     (if prev st = None \<or> (MULTILINE \<in> set f \<and> prev st = Some (CHR 0x0A)) then k st else None)"
| "m f Eol k st =
     (if rest st = [] \<or> rest st = [CHR 0x0A]
         \<or> (MULTILINE \<in> set f \<and> (case rest st of [] \<Rightarrow> False | c # _ \<Rightarrow> c = CHR 0x0A))
      then k st else None)"

text \<open>
  \<^verbatim>\<open>re.search\<close> tries the start positions from left to right and takes the first
  position where the matcher succeeds. When \<open>adv\<close> is set, a match that starts at the
  first position tried must not be empty (the rule of \<^verbatim>\<open>re.sub\<close> and \<^verbatim>\<open>re.findall\<close>
  after an empty match).
\<close>

definition accept :: "bool \<Rightarrow> nat \<Rightarrow> mstate \<Rightarrow> mstate option" where
  "accept adv i st = (if adv \<and> pos st = i then None else Some st)"

function search_from :: "flag list \<Rightarrow> re \<Rightarrow> bool \<Rightarrow> mstate \<Rightarrow> (nat \<times> mstate) option" where
  "search_from f r adv (St i p [] g) =
     (case m f r (accept adv i) (St i p [] g) of
        Some st' \<Rightarrow> Some (i, st')
      | None \<Rightarrow> None)"
| "search_from f r adv (St i p (c # s) g) =
     (case m f r (accept adv i) (St i p (c # s) g) of
        Some st' \<Rightarrow> Some (i, st')
      | None \<Rightarrow> search_from f r False (St (Suc i) (Some c) s g))"
  by pat_completeness auto
termination
  by (relation "measure (\<lambda>(f, r, adv, st). length (rest st))") auto

definition slice :: "string \<Rightarrow> nat \<Rightarrow> nat \<Rightarrow> string" where
  \<comment> \<open>\<^verbatim>\<open>text[b:e]\<close>\<close>
  "slice text b e = take (e - b) (drop b text)"

text \<open>A match object: the text, where the match starts and ends, and its groups.\<close>

datatype pmatch = Match (m_text: string) (m_start: nat) (m_end: nat)
  (m_marks: "(nat \<times> nat \<times> nat) list")

definition re_search :: "re \<Rightarrow> flag list \<Rightarrow> string \<Rightarrow> pmatch option" where
  "re_search pat f text =
     (case search_from f pat False (St 0 None text []) of
        None \<Rightarrow> None
      | Some (b, st) \<Rightarrow> Some (Match text b (pos st) (marks st)))"

datatype error = IndexError | ValueError | NoneError

definition group :: "pmatch \<Rightarrow> nat \<Rightarrow> error + string" where
  \<comment> \<open>\<^verbatim>\<open>match.group(n)\<close> for \<open>n > 0\<close>. A group that took no part in the match is
      \<^verbatim>\<open>None\<close> in Python, and the source goes on to use it as a string: that is the
      error \<open>NoneError\<close> here.\<close>
  "group mt n =
     (case map_of (m_marks mt) n of
        None \<Rightarrow> Inl NoneError
      | Some (b, e) \<Rightarrow> Inr (slice (m_text mt) b e))"

text \<open>
  The successive matches of \<^verbatim>\<open>re.sub\<close> and \<^verbatim>\<open>re.findall\<close>: each search starts where
  the match before it ended, with its groups cleared, and after an empty match the
  next one at that position must not be empty. That this terminates follows from the
  two lemmas on positions below.
\<close>

definition advances :: "mstate \<Rightarrow> mstate \<Rightarrow> bool" where
  \<comment> \<open>\<open>st'\<close> is \<open>st\<close> after reading some more characters\<close>
  "advances st st' \<longleftrightarrow> (\<exists>w. rest st = w @ rest st' \<and> pos st' = pos st + length w)"

lemma advances_refl: "advances st st"
  by (simp add: advances_def)

lemma advances_trans: "advances a b \<Longrightarrow> advances b c \<Longrightarrow> advances a c"
  by (fastforce simp: advances_def)

lemma advances_step: "advances (St (Suc i) (Some c) s g) st' \<Longrightarrow> advances (St i p (c # s) g') st'"
  by (fastforce simp: advances_def)

lemma advances_pos:
  "advances st st' \<Longrightarrow>
     pos st \<le> pos st' \<and> pos st' + length (rest st') = pos st + length (rest st)"
  by (auto simp: advances_def)

lemma rep_greedy_advances:
  "rep_greedy f cs mn mx k st = Some x \<Longrightarrow> \<exists>st'. advances st st' \<and> k st' = Some x"
proof (induction f cs mn mx k st rule: rep_greedy.induct)
  case (1 f cs mn mx k i p g)
  then show ?case
    by (auto split: if_splits intro: advances_refl)
next
  case (2 f cs mn mx k i p c s g)
  show ?case
  proof (cases "mx \<noteq> Some 0 \<and> cset_match f cs c")
    case True
    show ?thesis
    proof (cases "rep_greedy f cs (mn - 1) (map_option (\<lambda>n. n - 1) mx) k (St (Suc i) (Some c) s g)")
      case None
      with True "2.prems" have "k (St i p (c # s) g) = Some x"
        by (simp split: if_splits)
      then show ?thesis
        using advances_refl by blast
    next
      case (Some r)
      with True "2.prems" have "r = x"
        by simp
      with "2.IH" [OF True] Some obtain st'
        where "advances (St (Suc i) (Some c) s g) st'" "k st' = Some x"
        by blast
      then show ?thesis
        using advances_step by blast
    qed
  next
    case False
    with "2.prems" have "k (St i p (c # s) g) = Some x"
      by (auto split: if_splits)
    then show ?thesis
      using advances_refl by blast
  qed
qed

lemma rep_lazy_advances:
  "rep_lazy f cs mn mx k st = Some x \<Longrightarrow> \<exists>st'. advances st st' \<and> k st' = Some x"
proof (induction f cs mn mx k st rule: rep_lazy.induct)
  case (1 f cs mn mx k i p g)
  then show ?case
    by (auto split: if_splits intro: advances_refl)
next
  case (2 f cs mn mx k i p c s g)
  show ?case
  proof (cases "(if mn = 0 then k (St i p (c # s) g) else None)")
    case (Some r)
    with "2.prems" have "k (St i p (c # s) g) = Some x"
      by (auto split: if_splits)
    then show ?thesis
      using advances_refl by blast
  next
    case None
    with "2.prems" have go: "mx \<noteq> Some 0 \<and> cset_match f cs c"
      and "rep_lazy f cs (mn - 1) (map_option (\<lambda>n. n - 1) mx) k (St (Suc i) (Some c) s g) = Some x"
      by (auto split: if_splits)
    with "2.IH" [OF None go] obtain st'
      where "advances (St (Suc i) (Some c) s g) st'" "k st' = Some x"
      by blast
    then show ?thesis
      using advances_step by blast
  qed
qed

lemma m_advances:
  "m f r k st = Some x \<Longrightarrow> \<exists>st'. advances st st' \<and> k st' = Some x"
proof (induction r arbitrary: k st)
  case (Chr cs)
  then show ?case
    by (cases st; cases "rest st") (auto split: if_splits intro: advances_step advances_refl)
next
  case Eps
  then show ?case
    using advances_refl by auto
next
  case (Cat a b)
  from Cat.prems have "m f a (\<lambda>st'. m f b k st') st = Some x"
    by simp
  from Cat.IH(1) [OF this] obtain st1 where "advances st st1" "m f b k st1 = Some x"
    by blast
  with Cat.IH(2) show ?case
    using advances_trans by blast
next
  case (Alt a b)
  then show ?case
    by (cases "m f a k st") auto
next
  case (Rep gr mn mx cs)
  then show ?case
    using rep_greedy_advances rep_lazy_advances by (auto split: if_splits)
next
  case (Grp n r)
  from Grp.IH [OF Grp.prems [simplified]] obtain st'
    where "advances st st'"
      "k (St (pos st') (prev st') (rest st') ((n, pos st, pos st') # marks st')) = Some x"
    by blast
  moreover from this have
    "advances st (St (pos st') (prev st') (rest st') ((n, pos st, pos st') # marks st'))"
    by (simp add: advances_def)
  ultimately show ?case
    by blast
next
  case (Look r)
  then obtain st' where "k (St (pos st) (prev st) (rest st) (marks st')) = Some x"
    by (auto split: option.splits)
  moreover have "advances st (St (pos st) (prev st) (rest st) (marks st'))"
    by (simp add: advances_def)
  ultimately show ?case
    by blast
next
  case Bol
  then show ?case
    using advances_refl by (auto split: if_splits)
next
  case Eol
  then show ?case
    using advances_refl by (auto split: if_splits)
qed

lemma search_from_advances:
  "search_from f r adv st = Some (b, st') \<Longrightarrow>
     pos st \<le> b \<and> b \<le> pos st' \<and> pos st' + length (rest st') = pos st + length (rest st)
     \<and> (adv \<and> b = pos st \<longrightarrow> pos st' \<noteq> b)"
proof (induction f r adv st rule: search_from.induct)
  case (1 f r adv i p g)
  then have "m f r (accept adv i) (St i p [] g) = Some st'" and "b = i"
    by (auto split: option.splits)
  from m_advances [OF this(1)] obtain y where "advances (St i p [] g) y" "accept adv i y = Some st'"
    by blast
  with advances_pos [of "St i p [] g" y] \<open>b = i\<close> show ?case
    by (auto simp: accept_def split: if_splits)
next
  case (2 f r adv i p c s g)
  show ?case
  proof (cases "m f r (accept adv i) (St i p (c # s) g)")
    case None
    with "2.prems" have "search_from f r False (St (Suc i) (Some c) s g) = Some (b, st')"
      by simp
    from "2.IH" [OF None this] show ?thesis
      by auto
  next
    case (Some y)
    with "2.prems" have "y = st'" "b = i"
      by auto
    from m_advances [OF Some] obtain z
      where "advances (St i p (c # s) g) z" "accept adv i z = Some y"
      by blast
    with advances_pos [of "St i p (c # s) g" z] \<open>y = st'\<close> \<open>b = i\<close> show ?thesis
      by (auto simp: accept_def split: if_splits)
  qed
qed

function find_iter :: "flag list \<Rightarrow> re \<Rightarrow> bool \<Rightarrow> mstate \<Rightarrow> (nat \<times> mstate) list" where
  "find_iter f r adv st =
     (case search_from f r adv st of
        None \<Rightarrow> []
      | Some (b, st') \<Rightarrow>
          (b, st') # find_iter f r (pos st' = b) (St (pos st') (prev st') (rest st') []))"
  by pat_completeness auto
termination
proof (relation "measure (\<lambda>(f, r, adv, st). 2 * length (rest st) + (if adv then 0 else 1))",
    goal_cases)
  case 1
  show ?case by simp
next
  case (2 f r adv st x2 b st')
  from search_from_advances [of f r adv st b st'] 2 show ?case
    by (auto split: if_splits)
qed

declare find_iter.simps [simp del]

fun sub_build :: "string \<Rightarrow> string \<Rightarrow> nat \<Rightarrow> (nat \<times> mstate) list \<Rightarrow> string" where
  "sub_build text repl cur [] = drop cur text"
| "sub_build text repl cur ((b, st') # ms) =
     slice text cur b @ repl @ sub_build text repl (pos st') ms"

definition re_sub :: "re \<Rightarrow> string \<Rightarrow> string \<Rightarrow> string" where
  \<comment> \<open>\<^verbatim>\<open>re.sub(pattern, repl, text)\<close>, for a replacement without escapes\<close>
  "re_sub pat repl text = sub_build text repl 0 (find_iter [] pat False (St 0 None text []))"

definition re_findall :: "re \<Rightarrow> flag list \<Rightarrow> string \<Rightarrow> string list" where
  \<comment> \<open>\<^verbatim>\<open>re.findall(pattern, text, flags)\<close> for a pattern with one group: the text of
      the group in each match, empty when the group took no part\<close>
  "re_findall pat f text =
     map (\<lambda>(b, st'). case map_of (marks st') 1 of
                       None \<Rightarrow> []
                     | Some (s, e) \<Rightarrow> slice text s e)
       (find_iter f pat False (St 0 None text []))"

section \<open>The recipe parser\<close>

text \<open>
  The dictionary \<^verbatim>\<open>recipe_data\<close>. The source keeps the two nutrition values as the
  strings the patterns captured, the empty string standing for an absent value.
\<close>

record recipe_data =
  title :: string
  calories :: string
  protein :: string
  ingredients :: "string list"
  directions :: "string list"
  pro_tips :: "string list"

subsection \<open>The patterns of \<^verbatim>\<open>parse_recipe_data\<close>\<close>

definition space_run :: re where
  \<comment> \<open>\<^verbatim>\<open>\s+\<close>\<close>
  "space_run = plus (In [Space])"

definition spaces :: re where
  \<comment> \<open>\<^verbatim>\<open>\s*\<close>\<close>
  "spaces = star (In [Space])"

definition sentence_chr :: cset where
  \<comment> \<open>\<^verbatim>\<open>[^.!?\n]\<close>\<close>
  "sentence_chr = NotIn [Lit CHR ''.'', Lit CHR ''!'', Lit CHR ''?'', Lit (CHR 0x0A)]"

definition title_pattern_1 :: re where
  \<comment> \<open>\<^verbatim>\<open>([A-Z][^.!?\n]*(?:breakfast|lunch|...|wrap)[^.!?\n]*)\<close>\<close>
  "title_pattern_1 =
     Grp 1 (seq [Chr (In [Range CHR ''A'' CHR ''Z'']), star sentence_chr,
       alts (map lit [''breakfast'', ''lunch'', ''dinner'', ''pizza'', ''sandwich'', ''burrito'',
         ''bagel'', ''waffle'', ''pancake'', ''salad'', ''bowl'', ''plate'', ''wrap'']),
       star sentence_chr])"

definition title_pattern_2 :: re where
  \<comment> \<open>\<^verbatim>\<open>([A-Z][a-z\s]+(?:chicken|turkey|beef|pork|fish)[^.!?\n]*)\<close>\<close>
  "title_pattern_2 =
     Grp 1 (seq [Chr (In [Range CHR ''A'' CHR ''Z'']),
       plus (In [Range CHR ''a'' CHR ''z'', Space]),
       alts (map lit [''chicken'', ''turkey'', ''beef'', ''pork'', ''fish'']),
       star sentence_chr])"

definition title_pattern_3 :: re where
  \<comment> \<open>\<^verbatim>\<open>^([A-Z][^.!?\n]{10,50})\<close>\<close>
  "title_pattern_3 =
     seq [Bol, Grp 1 (seq [Chr (In [Range CHR ''A'' CHR ''Z'']), Rep True 10 (Some 50) sentence_chr])]"

definition title_patterns :: "re list" where
  "title_patterns = [title_pattern_1, title_pattern_2, title_pattern_3]"

definition number_prefix :: re where
  \<comment> \<open>\<^verbatim>\<open>^[0-9]+\.?\s*\<close>\<close>
  "number_prefix =
     seq [Bol, plus (In [Range CHR ''0'' CHR ''9'']), opt (In [Lit CHR ''.'']), spaces]"

definition common_names_pattern :: re where
  \<comment> \<open>\<^verbatim>\<open>([A-Za-z\s.]+(?:burrito|pizza|sandwich|bagel|waffle|pancake|salad|bowl|plate))\<close>\<close>
  "common_names_pattern =
     Grp 1 (seq [plus (In [Range CHR ''A'' CHR ''Z'', Range CHR ''a'' CHR ''z'', Space, Lit CHR ''.'']),
       alts (map lit [''burrito'', ''pizza'', ''sandwich'', ''bagel'', ''waffle'', ''pancake'',
         ''salad'', ''bowl'', ''plate''])])"

definition calorie_pattern :: re where
  \<comment> \<open>\<^verbatim>\<open>(\d+)\s*calories\<close>\<close>
  "calorie_pattern = seq [Grp 1 (plus (In [Digit])), spaces, lit ''calories'']"

definition protein_pattern :: re where
  \<comment> \<open>\<^verbatim>\<open>(\d+)\s*grams?\s*of\s*protein\<close>\<close>
  "protein_pattern =
     seq [Grp 1 (plus (In [Digit])), spaces, lit ''gram'', opt (In [Lit CHR ''s'']), spaces,
       lit ''of'', spaces, lit ''protein'']"

definition ingredients_pattern :: re where
  \<comment> \<open>\<^verbatim>\<open>Ingredients\s*(.*?)(?:Directions|$)\<close>\<close>
  "ingredients_pattern =
     seq [lit ''Ingredients'', spaces, Grp 1 (lazy_star Dot), Alt (lit ''Directions'') Eol]"

definition bullet_prefix :: re where
  \<comment> \<open>\<^verbatim>\<open>^[\<bullet>\-\*\d]+\.?\s*\<close>. The bullet is U+2022, which no text over the code points
      up to U+00FF holds, so the class is left with the hyphen, the star and the digits.\<close>
  "bullet_prefix =
     seq [Bol, plus (In [Lit CHR ''-'', Lit CHR ''*'', Digit]), opt (In [Lit CHR ''.'']), spaces]"

definition directions_pattern :: re where
  \<comment> \<open>\<^verbatim>\<open>Directions\s*(.*?)(?:PRO TIP|$)\<close>\<close>
  "directions_pattern =
     seq [lit ''Directions'', spaces, Grp 1 (lazy_star Dot), Alt (lit ''PRO TIP'') Eol]"

definition numbered_pattern :: re where
  \<comment> \<open>\<^verbatim>\<open>(\d+\..*?)(?=\d+\.|$)\<close>\<close>
  "numbered_pattern =
     seq [Grp 1 (seq [plus (In [Digit]), Chr (In [Lit CHR ''.'']), lazy_star Dot]),
       Look (Alt (seq [plus (In [Digit]), Chr (In [Lit CHR ''.''])]) Eol)]"

definition step_number :: re where
  \<comment> \<open>\<^verbatim>\<open>^\d+\.?\s*\<close>\<close>
  "step_number = seq [Bol, plus (In [Digit]), opt (In [Lit CHR ''.'']), spaces]"

definition pro_tips_pattern :: re where
  \<comment> \<open>\<^verbatim>\<open>PRO TIP[S]?\s*(.*?)$\<close>\<close>
  "pro_tips_pattern =
     seq [lit ''PRO TIP'', opt (In [Lit CHR ''S'']), spaces, Grp 1 (lazy_star Dot), Eol]"

subsection \<open>\<^verbatim>\<open>parse_recipe_data\<close>\<close>

definition clean_text :: "string \<Rightarrow> string" where
  \<comment> \<open>\<^verbatim>\<open>re.sub(r"\s+", " ", text.strip())\<close>\<close>
  "clean_text text = re_sub space_run '' '' (strip text)"

text \<open>The loop over the title patterns, which stops at the first title it accepts.\<close>

fun title_loop :: "re list \<Rightarrow> string \<Rightarrow> error + string" where
  "title_loop [] text = Inr []"
| "title_loop (pattern # patterns) text =
     (case re_search pattern [IGNORECASE, MULTILINE] text of
        None \<Rightarrow> title_loop patterns text
      | Some mt \<Rightarrow>
          (case group mt 1 of
             Inl e \<Rightarrow> Inl e
           | Inr g \<Rightarrow>
               let potential_title = re_sub number_prefix [] (strip g)
               in if length potential_title > 5
                     \<and> \<not> startswith_any (lower potential_title)
                          [''throw'', ''add'', ''cook'', ''place'']
                  then Inr potential_title
                  else title_loop patterns text))"

definition index0 :: "'a list \<Rightarrow> error + 'a" where
  \<comment> \<open>\<^verbatim>\<open>xs[0]\<close>\<close>
  "index0 xs = (case xs of [] \<Rightarrow> Inl IndexError | x # _ \<Rightarrow> Inr x)"

definition parse_title :: "string \<Rightarrow> error + string" where
  "parse_title text =
     (case title_loop title_patterns text of
        Inl e \<Rightarrow> Inl e
      | Inr t \<Rightarrow>
          if t = [] then
            (let common_names = re_findall common_names_pattern [IGNORECASE] text
             in if common_names \<noteq> [] then
                  (case index0 common_names of Inl e \<Rightarrow> Inl e | Inr n \<Rightarrow> Inr (strip n))
                else Inr t)
          else Inr t)"

definition parse_number :: "re \<Rightarrow> string \<Rightarrow> error + string" where
  \<comment> \<open>the calories and the protein: group 1 of the first match, or the empty string\<close>
  "parse_number pattern text =
     (case re_search pattern [IGNORECASE] text of
        None \<Rightarrow> Inr []
      | Some mt \<Rightarrow> group mt 1)"

text \<open>The loop over the lines of the ingredients section.\<close>

fun ingredient_lines :: "string list \<Rightarrow> string list" where
  "ingredient_lines [] = []"
| "ingredient_lines (line # lines) =
     (let line = strip line
      in if line \<noteq> [] \<and> \<not> startswith_any (lower line) [''directions'', ''pro tip'']
         then (let line = re_sub bullet_prefix [] line
               in if line \<noteq> [] then line # ingredient_lines lines else ingredient_lines lines)
         else ingredient_lines lines)"

definition ingredients_section :: "string \<Rightarrow> error + string option" where
  \<comment> \<open>the text between the markers, when there is an \<^verbatim>\<open>Ingredients\<close> marker\<close>
  "ingredients_section text =
     (case re_search ingredients_pattern [IGNORECASE, DOTALL] text of
        None \<Rightarrow> Inr None
      | Some mt \<Rightarrow> (case group mt 1 of Inl e \<Rightarrow> Inl e | Inr g \<Rightarrow> Inr (Some g)))"

definition parse_ingredients :: "string \<Rightarrow> error + string list" where
  "parse_ingredients text =
     (case ingredients_section text of
        Inl e \<Rightarrow> Inl e
      | Inr None \<Rightarrow> Inr []
      | Inr (Some ingredients_text) \<Rightarrow>
          Inr (ingredient_lines (split_chr (CHR 0x0A) ingredients_text)))"

text \<open>The loop over the numbered steps of the directions, and over the numbered tips.\<close>

fun numbered_items :: "string list \<Rightarrow> string list" where
  "numbered_items [] = []"
| "numbered_items (step # steps) =
     (let step = strip step
      in if step \<noteq> [] then strip (re_sub step_number [] step) # numbered_items steps
         else numbered_items steps)"

definition directions_section :: "string \<Rightarrow> error + string option" where
  "directions_section text =
     (case re_search directions_pattern [IGNORECASE, DOTALL] text of
        None \<Rightarrow> Inr None
      | Some mt \<Rightarrow> (case group mt 1 of Inl e \<Rightarrow> Inl e | Inr g \<Rightarrow> Inr (Some g)))"

definition parse_directions :: "string \<Rightarrow> error + string list" where
  "parse_directions text =
     (case directions_section text of
        Inl e \<Rightarrow> Inl e
      | Inr None \<Rightarrow> Inr []
      | Inr (Some directions_text) \<Rightarrow>
          Inr (numbered_items (re_findall numbered_pattern [DOTALL] directions_text)))"

definition pro_tips_section :: "string \<Rightarrow> error + string option" where
  \<comment> \<open>the text after the \<^verbatim>\<open>PRO TIP\<close> marker, when there is one\<close>
  "pro_tips_section text =
     (case re_search pro_tips_pattern [IGNORECASE, DOTALL] text of
        None \<Rightarrow> Inr None
      | Some mt \<Rightarrow> (case group mt 1 of Inl e \<Rightarrow> Inl e | Inr g \<Rightarrow> Inr (Some g)))"

definition parse_pro_tips :: "string \<Rightarrow> error + string list" where
  "parse_pro_tips text =
     (case pro_tips_section text of
        Inl e \<Rightarrow> Inl e
      | Inr None \<Rightarrow> Inr []
      | Inr (Some tips_text) \<Rightarrow>
          Inr (numbered_items (re_findall numbered_pattern [DOTALL] tips_text)))"

definition parse_recipe_data :: "string \<Rightarrow> error + recipe_data" where
  "parse_recipe_data raw =
     (let text = clean_text raw in
      (case parse_title text of Inl e \<Rightarrow> Inl e | Inr t \<Rightarrow>
      (case parse_number calorie_pattern text of Inl e \<Rightarrow> Inl e | Inr c \<Rightarrow>
      (case parse_number protein_pattern text of Inl e \<Rightarrow> Inl e | Inr p \<Rightarrow>
      (case parse_ingredients text of Inl e \<Rightarrow> Inl e | Inr ing \<Rightarrow>
      (case parse_directions text of Inl e \<Rightarrow> Inl e | Inr dir \<Rightarrow>
      (case parse_pro_tips text of Inl e \<Rightarrow> Inl e | Inr tips \<Rightarrow>
        Inr \<lparr>title = t, calories = c, protein = p, ingredients = ing, directions = dir,
             pro_tips = tips\<rparr>)))))))"

section \<open>The tags\<close>

definition ingredient_tags :: "(string \<times> string list) list" where
  \<comment> \<open>the dictionary \<^verbatim>\<open>self.ingredient_tags\<close>, in the order it is written\<close>
  "ingredient_tags =
     [(''chicken'', [''chicken'', ''chicken breast'', ''chicken tender'']),
      (''turkey'', [''turkey'', ''turkey bacon'', ''turkey sausage'', ''turkey chorizo'',
         ''turkey pepperoni'']),
      (''beef'', [''beef'', ''ground beef'', ''steak'']),
      (''pork'', [''pork'', ''bacon'', ''ham'']),
      (''fish'', [''fish'', ''salmon'', ''tuna'', ''cod'']),
      (''egg'', [''egg'', ''egg white'', ''eggs'']),
      (''breakfast'', [''breakfast'', ''bagel'', ''waffle'', ''pancake'', ''burrito'', ''scramble'']),
      (''lunch'', [''lunch'', ''sandwich'', ''wrap'', ''salad'']),
      (''dinner'', [''dinner'', ''pasta'', ''rice'', ''stir fry'']),
      (''snack'', [''snack'', ''bar'', ''bite'', ''ball'']),
      (''pizza'', [''pizza'', ''flatbread'', ''pita'']),
      (''pasta'', [''pasta'', ''noodle'', ''spaghetti'', ''penne'']),
      (''sandwich'', [''sandwich'', ''sub'', ''hoagie'']),
      (''burrito'', [''burrito'', ''wrap'', ''tortilla'']),
      (''bagel'', [''bagel'']),
      (''waffle'', [''waffle'']),
      (''pancake'', [''pancake'']),
      (''salad'', [''salad'', ''bowl'']),
      (''airfryer'', [''air fryer'', ''airfryer'']),
      (''baked'', [''baked'', ''oven'', ''broil'']),
      (''grilled'', [''grilled'', ''grill'']),
      (''lowcarb'', [''low carb'', ''keto'', ''carb balance'']),
      (''highprotein'', [''protein'', ''high protein'']),
      (''fatfree'', [''fat free'', ''fat-free''])]"

text \<open>
  \<^verbatim>\<open>int(s)\<close> on a string: blanks around, a sign, then decimal digits, where single
  underscores may stand between digits. The interpreter refuses more than
  \<open>max_str_digits\<close> digits (its default, 4300).
\<close>

definition max_str_digits :: nat where
  "max_str_digits = 4300"

definition is_int_space :: "char \<Rightarrow> bool" where
  "is_int_space c \<longleftrightarrow> in_range (CHR 0x09) (CHR 0x0D) c \<or> c = CHR '' ''
     \<or> c = CHR 0x85 \<or> c = CHR 0xA0"

fun grouped_digits :: "string \<Rightarrow> bool" where
  "grouped_digits [] = False"
| "grouped_digits [c] = is_digit c"
| "grouped_digits (c # d # s) =
     (is_digit c \<and> (if d = CHR ''_'' then grouped_digits s else grouped_digits (d # s)))"

definition digit_value :: "char \<Rightarrow> int" where
  "digit_value c = int (of_char c) - 48"

definition decimal :: "string \<Rightarrow> int" where
  "decimal s = foldl (\<lambda>n c. 10 * n + digit_value c) 0 (filter is_digit s)"

definition py_int :: "string \<Rightarrow> error + int" where
  "py_int s =
     (let t = rev (dropWhile is_int_space (rev (dropWhile is_int_space s)));
          negative = startswith t ''-'';
          body = (if startswith t ''-'' \<or> startswith t ''+'' then tl t else t)
      in if grouped_digits body \<and> length (filter is_digit body) \<le> max_str_digits
         then Inr (if negative then - decimal body else decimal body)
         else Inl ValueError)"

definition all_text :: "recipe_data \<Rightarrow> string" where
  "all_text r =
     lower (join '' '' [title r, join '' '' (ingredients r), join '' '' (directions r)])"

definition keyword_hit :: "string \<Rightarrow> string list \<Rightarrow> bool" where
  \<comment> \<open>the inner loop: some keyword occurs in the text\<close>
  "keyword_hit text keywords = list_ex (\<lambda>keyword. contains text (lower keyword)) keywords"

text \<open>The set \<^verbatim>\<open>tags\<close> is a list without repetitions; \<^verbatim>\<open>tags.add\<close> is \<^const>\<open>List.insert\<close>.\<close>

fun taxonomy_tags :: "(string \<times> string list) list \<Rightarrow> string \<Rightarrow> string list \<Rightarrow> string list" where
  "taxonomy_tags [] text tags = tags"
| "taxonomy_tags ((tag, keywords) # items) text tags =
     taxonomy_tags items text (if keyword_hit text keywords then List.insert tag tags else tags)"

definition calorie_tags :: "string \<Rightarrow> string list \<Rightarrow> error + string list" where
  "calorie_tags cal tags =
     (if cal \<noteq> [] then
        (case py_int cal of
           Inl e \<Rightarrow> Inl e
         | Inr n \<Rightarrow>
             Inr (if n < 300 then List.insert ''lowcalorie'' tags
                  else if n > 500 then List.insert ''highcalorie'' tags
                  else tags))
      else Inr tags)"

definition protein_tags :: "string \<Rightarrow> string list \<Rightarrow> error + string list" where
  "protein_tags prot tags =
     (if prot \<noteq> [] then
        (case py_int prot of
           Inl e \<Rightarrow> Inl e
         | Inr n \<Rightarrow> Inr (if n > 40 then List.insert ''highprotein'' tags else tags))
      else Inr tags)"

definition generate_tags :: "recipe_data \<Rightarrow> error + string list" where
  "generate_tags r =
     (let tags = taxonomy_tags ingredient_tags (all_text r) [] in
      (case calorie_tags (calories r) tags of Inl e \<Rightarrow> Inl e | Inr tags \<Rightarrow>
      (case protein_tags (protein r) tags of Inl e \<Rightarrow> Inl e | Inr tags \<Rightarrow>
        Inr (sort (if tags = [] then [''recipe''] else tags)))))"

section \<open>The note\<close>

abbreviation nl :: string where
  "nl \<equiv> [CHR 0x0A]"











section \<open>The file name\<close>

definition illegal_chr :: re where
  \<comment> \<open>\<^verbatim>\<open>[<>:"/\\|?*]\<close>\<close>
  "illegal_chr =
     Chr (In [Lit CHR ''<'', Lit CHR ''>'', Lit CHR '':'', Lit (CHR 0x22), Lit CHR ''/'',
       Lit (CHR 0x5C), Lit CHR ''|'', Lit CHR ''?'', Lit CHR ''*''])"

definition odd_chr :: re where
  \<comment> \<open>\<^verbatim>\<open>[^\w\s-]\<close>\<close>
  "odd_chr = Chr (NotIn [Word, Space, Lit CHR ''-''])"

definition sanitize_filename :: "string \<Rightarrow> string" where
  "sanitize_filename t =
     (let sanitized = re_sub illegal_chr [] t;
          sanitized = re_sub odd_chr [] sanitized;
          sanitized = strip (re_sub space_run '' '' sanitized);
          sanitized = replace_chr CHR '' '' CHR ''_'' sanitized;
          sanitized = (if length sanitized > 50 then rstrip_chr CHR ''_'' (take 50 sanitized)
                       else sanitized)
      in if sanitized \<noteq> [] then sanitized else ''recipe'')"

section \<open>The end-to-end example\<close>

definition example_text :: string where
  "example_text = ''Turkey Bacon Breakfast Burrito ... 350 calories ... 28 grams of protein ... Ingredients 2 eggs 2 turkey bacon strips Directions 1. Cook bacon 2. Scramble eggs PRO TIP Use low-sodium bacon''"

definition example_record :: recipe_data where
  "example_record =
     \<lparr>title = ''Turkey Bacon Breakfast Burrito'', calories = ''350'', protein = ''28'',
      ingredients = [''eggs 2 turkey bacon strips''],
      directions = [''Cook bacon'', ''Scramble eggs''],
      pro_tips = []\<rparr>"

lemma example_parse: "parse_recipe_data example_text = Inr example_record"
  by code_simp

lemma example_tags:
  "generate_tags example_record = Inr [''breakfast'', ''burrito'', ''egg'', ''pork'', ''turkey'']"
  by code_simp

text \<open>
  Claim C1, as the specification states it, fails on the example: the ingredients are
  not the two entries \<open>2 eggs\<close> and \<open>2 turkey bacon strips\<close>, and the tip without a number
  is not kept.
\<close>

theorem example_counterexample:
  "map_sum id ingredients (parse_recipe_data example_text)
     \<noteq> Inr [''2 eggs'', ''2 turkey bacon strips'']
   \<and> map_sum id pro_tips (parse_recipe_data example_text) \<noteq> Inr [''Use low-sodium bacon'']"
  by (simp add: example_parse example_record_def)

text \<open>
  Claim C1, amended: on the raw text of the example \<open>parse_recipe_data\<close> returns the title
  \<open>Turkey Bacon Breakfast Burrito\<close>, the calories 350, the protein 28, one ingredient
  \<open>eggs 2 turkey bacon strips\<close> (the whole region, its leading \<open>2\<close> taken for a number
  marker), the directions \<open>Cook bacon\<close> and \<open>Scramble eggs\<close>, and no tip; \<open>generate_tags\<close>
  on that record yields the sorted list breakfast, burrito, egg, pork, turkey.
\<close>

theorem example_result:
  "parse_recipe_data example_text =
     Inr \<lparr>title = ''Turkey Bacon Breakfast Burrito'', calories = ''350'', protein = ''28'',
          ingredients = [''eggs 2 turkey bacon strips''],
          directions = [''Cook bacon'', ''Scramble eggs''],
          pro_tips = []\<rparr>
   \<and> py_int ''350'' = Inr 350 \<and> py_int ''28'' = Inr 28
   \<and> generate_tags example_record = Inr [''breakfast'', ''burrito'', ''egg'', ''pork'', ''turkey'']
   \<and> sorted [''breakfast'', ''burrito'', ''egg'', ''pork'', ''turkey'']"
proof -
  have "py_int ''350'' = Inr 350" "py_int ''28'' = Inr 28"
    by code_simp+
  moreover have "sorted [''breakfast'', ''burrito'', ''egg'', ''pork'', ''turkey'']"
    by code_simp
  ultimately show ?thesis
    using example_parse example_tags by (simp add: example_record_def)
qed

section \<open>Bulleted ingredients on lines of their own\<close>

definition bulleted_text :: string where
  "bulleted_text =
     ''Ingredients'' @ nl @ ''- 2 eggs'' @ nl @ ''- 2 turkey bacon strips'' @ nl
     @ ''Directions'' @ nl @ ''1. Cook bacon''"

text \<open>
  Claim C2 on a text with one bulleted ingredient per line: the two items come back as
  a single entry, in which only the first bullet is stripped.
\<close>

theorem bulleted_ingredients_one_entry:
  "map_sum id ingredients (parse_recipe_data bulleted_text)
     = Inr [''2 eggs - 2 turkey bacon strips'']"
  by code_simp

section \<open>Properties of the tags\<close>

text \<open>
  \<open>generate_tags\<close> converts each nutrition value that is present with \<^verbatim>\<open>int\<close>, which raises
  on a string that is not an integer literal. \<open>int_ok\<close> holds of the values on which it
  does not: the empty string (the value is absent) and the strings \<^verbatim>\<open>int\<close> accepts;
  \<open>int_of\<close> is the integer read. A run of at most \<open>max_str_digits\<close> digits, as
  \<open>nutrition_ok\<close> describes it, is such a value.
\<close>

definition int_ok :: "string \<Rightarrow> bool" where
  "int_ok s \<longleftrightarrow> s = [] \<or> (case py_int s of Inl e \<Rightarrow> False | Inr n \<Rightarrow> True)"

definition int_of :: "string \<Rightarrow> int" where
  "int_of s = (case py_int s of Inl e \<Rightarrow> 0 | Inr n \<Rightarrow> n)"

definition nutrition_ok :: "string \<Rightarrow> bool" where
  "nutrition_ok s \<longleftrightarrow> list_all is_digit s \<and> length s \<le> max_str_digits"



lemma py_int_ok: "s \<noteq> [] \<Longrightarrow> int_ok s \<Longrightarrow> py_int s = Inr (int_of s)"
  by (cases "py_int s") (simp_all add: int_ok_def int_of_def)

lemma py_int_error: "py_int s = Inl e \<Longrightarrow> e = ValueError"
  by (simp add: py_int_def Let_def split: if_splits)

lemma py_int_not_ok: "\<not> int_ok s \<Longrightarrow> py_int s = Inl ValueError"
  using py_int_error by (cases "py_int s") (auto simp: int_ok_def)

lemma digit_plain:
  "is_digit c \<Longrightarrow> \<not> is_int_space c \<and> c \<noteq> CHR ''-'' \<and> c \<noteq> CHR ''+'' \<and> c \<noteq> CHR ''_''"
  by (cases c) (auto simp: is_digit_def is_int_space_def in_range_def)

lemma grouped_digits_all: "s \<noteq> [] \<Longrightarrow> list_all is_digit s \<Longrightarrow> grouped_digits s"
  by (induction s rule: grouped_digits.induct) (auto dest: digit_plain)

lemma py_int_digits:
  assumes "s \<noteq> []" "nutrition_ok s"
  shows "py_int s = Inr (decimal s)"
proof -
  from assms obtain c t where s: "s = c # t" and c: "is_digit c"
    by (cases s) (auto simp: nutrition_ok_def)
  from assms have l: "is_digit (last s)"
    by (simp add: nutrition_ok_def list_all_iff)
  have front: "dropWhile is_int_space s = s"
    using s c digit_plain by simp
  have "dropWhile is_int_space (rev s) = rev s"
    using assms(1) l digit_plain by (cases "rev s") (auto simp: last_rev hd_rev)
  with front have strip: "rev (dropWhile is_int_space (rev (dropWhile is_int_space s))) = s"
    by simp
  have nosign: "\<not> startswith s ''-''" "\<not> startswith s ''+''"
    using s c digit_plain by auto
  have "filter is_digit s = s"
    using assms(2) by (simp add: nutrition_ok_def list_all_iff)
  with assms strip nosign grouped_digits_all show ?thesis
    by (simp add: py_int_def nutrition_ok_def)
qed

lemma nutrition_ok_int_ok:
  "nutrition_ok s \<Longrightarrow> int_ok s \<and> (s \<noteq> [] \<longrightarrow> int_of s = decimal s)"
  using py_int_digits [of s] by (cases "s = []") (simp_all add: int_ok_def int_of_def)




lemma generate_tags_raises:
  assumes "\<not> int_ok (calories r) \<or> \<not> int_ok (protein r)"
  shows "generate_tags r = Inl ValueError"
proof (cases "int_ok (calories r)")
  case False
  then have "calories r \<noteq> []" "py_int (calories r) = Inl ValueError"
    using py_int_not_ok by (auto simp: int_ok_def)
  then show ?thesis
    by (simp add: generate_tags_def calorie_tags_def Let_def)
next
  case True
  with assms have "protein r \<noteq> []" "py_int (protein r) = Inl ValueError"
    using py_int_not_ok by (auto simp: int_ok_def)
  with True show ?thesis
    by (simp add: generate_tags_def calorie_tags_def protein_tags_def py_int_ok Let_def)
qed
























section \<open>Properties of the note\<close>






section \<open>Properties of the matcher\<close>

text \<open>What a repetition hands to the rest of the pattern.\<close>

definition rep_result ::
  "flag list \<Rightarrow> cset \<Rightarrow> nat \<Rightarrow> (mstate \<Rightarrow> 'a option) \<Rightarrow> mstate \<Rightarrow> 'a \<Rightarrow> bool" where
  \<comment> \<open>the rest of the pattern succeeds after some characters of the class, at least \<open>mn\<close>\<close>
  "rep_result f cs mn k st x \<longleftrightarrow>
     (\<exists>w s' p'. rest st = w @ s' \<and> list_all (cset_match f cs) w \<and> mn \<le> length w
        \<and> k (St (pos st + length w) p' s' (marks st)) = Some x)"

lemma rep_result_here:
  "mn = 0 \<Longrightarrow> k (St i p s g) = Some x \<Longrightarrow> rep_result f cs mn k (St i p s g) x"
  unfolding rep_result_def
  by (rule exI [of _ "[]"], rule exI [of _ s], rule exI [of _ p]) simp

lemma rep_result_step:
  assumes "cset_match f cs c" "rep_result f cs (mn - 1) k (St (Suc i) (Some c) s g) x"
  shows "rep_result f cs mn k (St i p (c # s) g) x"
proof -
  from assms(2) obtain w s' p'
    where w: "s = w @ s'" "list_all (cset_match f cs) w" "mn - 1 \<le> length w"
      "k (St (Suc i + length w) p' s' g) = Some x"
    unfolding rep_result_def by auto
  have "c # s = (c # w) @ s'" "list_all (cset_match f cs) (c # w)" "mn \<le> length (c # w)"
    "k (St (i + length (c # w)) p' s' g) = Some x"
    using assms(1) w by simp_all
  then show ?thesis
    unfolding rep_result_def mstate.sel by blast
qed

lemma rep_greedy_result:
  "rep_greedy f cs mn mx k st = Some x \<Longrightarrow> rep_result f cs mn k st x"
proof (induction f cs mn mx k st rule: rep_greedy.induct)
  case (1 f cs mn mx k i p g)
  then have "mn = 0" "k (St i p [] g) = Some x"
    by (simp_all split: if_splits)
  then show ?case
    by (rule rep_result_here)
next
  case (2 f cs mn mx k i p c s g)
  show ?case
  proof (cases "mx \<noteq> Some 0 \<and> cset_match f cs c")
    case True
    show ?thesis
    proof (cases "rep_greedy f cs (mn - 1) (map_option (\<lambda>n. n - 1) mx) k (St (Suc i) (Some c) s g)")
      case None
      with True "2.prems" have "mn = 0" "k (St i p (c # s) g) = Some x"
        by (simp_all split: if_splits)
      then show ?thesis
        by (rule rep_result_here)
    next
      case (Some y)
      with True "2.prems" have "y = x"
        by simp
      with "2.IH" [OF True] Some
      have "rep_result f cs (mn - 1) k (St (Suc i) (Some c) s g) x"
        by simp
      moreover from True have "cset_match f cs c"
        by simp
      ultimately show ?thesis
        by (rule rep_result_step [rotated])
    qed
  next
    case False
    with "2.prems" have "mn = 0" "k (St i p (c # s) g) = Some x"
      by (simp_all split: if_splits)
    then show ?thesis
      by (rule rep_result_here)
  qed
qed

lemma rep_lazy_result:
  "rep_lazy f cs mn mx k st = Some x \<Longrightarrow> rep_result f cs mn k st x"
proof (induction f cs mn mx k st rule: rep_lazy.induct)
  case (1 f cs mn mx k i p g)
  then have "mn = 0" "k (St i p [] g) = Some x"
    by (simp_all split: if_splits)
  then show ?case
    by (rule rep_result_here)
next
  case (2 f cs mn mx k i p c s g)
  show ?case
  proof (cases "if mn = 0 then k (St i p (c # s) g) else None")
    case (Some y)
    with "2.prems" have "mn = 0" "k (St i p (c # s) g) = Some x"
      by (simp_all split: if_splits)
    then show ?thesis
      by (rule rep_result_here)
  next
    case None
    with "2.prems" have go: "mx \<noteq> Some 0 \<and> cset_match f cs c"
      and "rep_lazy f cs (mn - 1) (map_option (\<lambda>n. n - 1) mx) k (St (Suc i) (Some c) s g) = Some x"
      by (simp_all split: if_splits)
    with "2.IH" [OF None go]
    have "rep_result f cs (mn - 1) k (St (Suc i) (Some c) s g) x"
      by simp
    moreover from go have "cset_match f cs c"
      by simp
    ultimately show ?thesis
      by (rule rep_result_step [rotated])
  qed
qed

lemma m_Rep_result: "m f (Rep gr mn mx cs) k st = Some x \<Longrightarrow> rep_result f cs mn k st x"
  using rep_greedy_result rep_lazy_result by (cases gr) fastforce+

text \<open>A group that every way through the pattern closes is set after a match.\<close>

fun sets_group :: "nat \<Rightarrow> re \<Rightarrow> bool" where
  "sets_group n (Grp j r) = (j = n \<or> sets_group n r)"
| "sets_group n (Cat a b) = (sets_group n a \<or> sets_group n b)"
| "sets_group n (Alt a b) = (sets_group n a \<and> sets_group n b)"
| "sets_group n r = False"

lemma m_marks:
  "m f r k st = Some x \<Longrightarrow>
     \<exists>st'. k st' = Some x \<and> fst ` set (marks st) \<subseteq> fst ` set (marks st')
       \<and> (sets_group n r \<longrightarrow> n \<in> fst ` set (marks st'))"
proof (induction r arbitrary: k st x)
  case (Chr cs)
  obtain i p s g where st: "st = St i p s g"
    by (cases st)
  with Chr obtain c s' where "s = c # s'" "k (St (Suc i) (Some c) s' g) = Some x"
    by (cases s) (auto split: if_splits)
  with st show ?case
    by (intro exI [of _ "St (Suc i) (Some c) s' g"]) simp
next
  case Eps
  then show ?case
    by auto
next
  case (Cat a b)
  from Cat.prems have "m f a (\<lambda>st'. m f b k st') st = Some x"
    by simp
  from Cat.IH(1) [OF this] obtain st1
    where 1: "m f b k st1 = Some x" "fst ` set (marks st) \<subseteq> fst ` set (marks st1)"
      "sets_group n a \<longrightarrow> n \<in> fst ` set (marks st1)"
    by blast
  from Cat.IH(2) [OF 1(1)] obtain st2
    where 2: "k st2 = Some x" "fst ` set (marks st1) \<subseteq> fst ` set (marks st2)"
      "sets_group n b \<longrightarrow> n \<in> fst ` set (marks st2)"
    by blast
  from 1 2 show ?case
    by (intro exI [of _ st2]) auto
next
  case (Alt a b)
  show ?case
  proof (cases "m f a k st")
    case None
    with Alt.prems have "m f b k st = Some x"
      by simp
    from Alt.IH(2) [OF this] show ?thesis
      using None by auto
  next
    case (Some y)
    with Alt.prems have "m f a k st = Some x"
      by simp
    from Alt.IH(1) [OF this] show ?thesis
      by auto
  qed
next
  case (Rep gr mn mx cs)
  from m_Rep_result [OF Rep.prems]
  obtain w :: string and s' p' where "k (St (pos st + length w) p' s' (marks st)) = Some x"
    unfolding rep_result_def by auto
  then show ?case
    by (intro exI [of _ "St (pos st + length w) p' s' (marks st)"]) simp
next
  case (Grp j r)
  from Grp.IH [OF Grp.prems [simplified]] obtain st1
    where 1: "k (St (pos st1) (prev st1) (rest st1) ((j, pos st, pos st1) # marks st1)) = Some x"
      "fst ` set (marks st) \<subseteq> fst ` set (marks st1)"
      "sets_group n r \<longrightarrow> n \<in> fst ` set (marks st1)"
    by blast
  then show ?case
    by (intro exI [of _ "St (pos st1) (prev st1) (rest st1) ((j, pos st, pos st1) # marks st1)"])
      auto
next
  case (Look r)
  then obtain st1 where 1: "m f r Some st = Some st1"
    "k (St (pos st) (prev st) (rest st) (marks st1)) = Some x"
    by (auto split: option.splits)
  from Look.IH [OF 1(1)] have "fst ` set (marks st) \<subseteq> fst ` set (marks st1)"
    by auto
  with 1(2) show ?case
    by (intro exI [of _ "St (pos st) (prev st) (rest st) (marks st1)"]) simp
next
  case Bol
  then show ?case
    by (auto split: if_splits)
next
  case Eol
  then show ?case
    by (auto split: if_splits)
qed

lemma search_from_group:
  "search_from f r adv st = Some (b, st') \<Longrightarrow> sets_group n r \<Longrightarrow> n \<in> fst ` set (marks st')"
proof (induction f r adv st rule: search_from.induct)
  case (1 f r adv i p g)
  then have "m f r (accept adv i) (St i p [] g) = Some st'"
    by (auto split: option.splits)
  from m_marks [OF this, of n] 1(2) show ?case
    by (auto simp: accept_def split: if_splits)
next
  case (2 f r adv i p c s g)
  show ?case
  proof (cases "m f r (accept adv i) (St i p (c # s) g)")
    case None
    with "2.prems" "2.IH" show ?thesis
      by simp
  next
    case (Some y)
    with "2.prems" have "m f r (accept adv i) (St i p (c # s) g) = Some st'"
      by simp
    from m_marks [OF this, of n] "2.prems"(2) show ?thesis
      by (auto simp: accept_def split: if_splits)
  qed
qed

lemma group_defined:
  assumes "re_search pat f t = Some mt" "sets_group n pat"
  shows "\<exists>g. group mt n = Inr g"
proof -
  from assms(1) obtain b st where "search_from f pat False (St 0 None t []) = Some (b, st)"
    and mt: "mt = Match t b (pos st) (marks st)"
    by (auto simp: re_search_def split: option.splits)
  with assms(2) have "n \<in> fst ` set (marks st)"
    using search_from_group by blast
  then have "map_of (marks st) n \<noteq> None"
    by (simp add: map_of_eq_None_iff)
  then show ?thesis
    using mt by (auto simp: group_def split: option.splits)
qed

section \<open>The parser never raises\<close>

lemma pattern_groups:
  "sets_group 1 title_pattern_1" "sets_group 1 title_pattern_2" "sets_group 1 title_pattern_3"
  "sets_group 1 calorie_pattern" "sets_group 1 protein_pattern"
  "sets_group 1 ingredients_pattern" "sets_group 1 directions_pattern"
  "sets_group 1 pro_tips_pattern"
  by (simp_all add: title_pattern_1_def title_pattern_2_def title_pattern_3_def
      calorie_pattern_def protein_pattern_def ingredients_pattern_def directions_pattern_def
      pro_tips_pattern_def)

lemma title_loop_total:
  "\<forall>p \<in> set ps. sets_group 1 p \<Longrightarrow> \<exists>t. title_loop ps s = Inr t"
proof (induction ps)
  case Nil
  then show ?case
    by simp
next
  case (Cons p ps)
  show ?case
  proof (cases "re_search p [IGNORECASE, MULTILINE] s")
    case None
    with Cons show ?thesis
      by simp
  next
    case (Some mt)
    with Cons.prems obtain g where "group mt 1 = Inr g"
      using group_defined by fastforce
    with Some Cons show ?thesis
      by (auto simp: Let_def)
  qed
qed

lemma parse_title_total: "\<exists>t. parse_title s = Inr t"
proof -
  obtain t where "title_loop title_patterns s = Inr t"
    using title_loop_total [of title_patterns s] pattern_groups
    by (auto simp: title_patterns_def)
  then show ?thesis
    by (auto simp: parse_title_def index0_def Let_def split: list.splits)
qed

lemma parse_number_total:
  "sets_group 1 pat \<Longrightarrow> \<exists>n. parse_number pat s = Inr n"
  using group_defined by (cases "re_search pat [IGNORECASE] s") (auto simp: parse_number_def)

lemma section_total:
  assumes "sets_group 1 pat"
  shows "\<exists>x. (case re_search pat f s of
                None \<Rightarrow> Inr None
              | Some mt \<Rightarrow> (case group mt 1 of Inl e \<Rightarrow> Inl e | Inr g \<Rightarrow> Inr (Some g))) = Inr x"
proof (cases "re_search pat f s")
  case None
  then show ?thesis
    by simp
next
  case (Some mt)
  with assms obtain g where "group mt 1 = Inr g"
    using group_defined by blast
  with Some show ?thesis
    by simp
qed

lemma parse_ingredients_total: "\<exists>i. parse_ingredients s = Inr i"
proof -
  obtain x where "ingredients_section s = Inr x"
    using section_total [OF pattern_groups(6)] unfolding ingredients_section_def by blast
  then show ?thesis
    by (cases x) (simp_all add: parse_ingredients_def)
qed

lemma parse_directions_total: "\<exists>d. parse_directions s = Inr d"
proof -
  obtain x where "directions_section s = Inr x"
    using section_total [OF pattern_groups(7)] unfolding directions_section_def by blast
  then show ?thesis
    by (cases x) (simp_all add: parse_directions_def)
qed

lemma parse_pro_tips_total: "\<exists>x. parse_pro_tips s = Inr x"
proof -
  obtain x where "pro_tips_section s = Inr x"
    using section_total [OF pattern_groups(8)] unfolding pro_tips_section_def by blast
  then show ?thesis
    by (cases x) (simp_all add: parse_pro_tips_def)
qed

lemma parse_recipe_data_parts:
  "\<exists>t c p i d x.
     parse_title (clean_text raw) = Inr t
     \<and> parse_number calorie_pattern (clean_text raw) = Inr c
     \<and> parse_number protein_pattern (clean_text raw) = Inr p
     \<and> parse_ingredients (clean_text raw) = Inr i
     \<and> parse_directions (clean_text raw) = Inr d
     \<and> parse_pro_tips (clean_text raw) = Inr x
     \<and> parse_recipe_data raw =
         Inr \<lparr>title = t, calories = c, protein = p, ingredients = i, directions = d,
              pro_tips = x\<rparr>"
proof -
  obtain t where t: "parse_title (clean_text raw) = Inr t"
    using parse_title_total by blast
  obtain c where c: "parse_number calorie_pattern (clean_text raw) = Inr c"
    using parse_number_total pattern_groups(4) by blast
  obtain p where p: "parse_number protein_pattern (clean_text raw) = Inr p"
    using parse_number_total pattern_groups(5) by blast
  obtain i where i: "parse_ingredients (clean_text raw) = Inr i"
    using parse_ingredients_total by blast
  obtain d where d: "parse_directions (clean_text raw) = Inr d"
    using parse_directions_total by blast
  obtain x where x: "parse_pro_tips (clean_text raw) = Inr x"
    using parse_pro_tips_total by blast
  from t c p i d x show ?thesis
    by (simp add: parse_recipe_data_def)
qed

lemma empty_parse:
  "parse_recipe_data [] =
     Inr \<lparr>title = [], calories = [], protein = [], ingredients = [], directions = [],
          pro_tips = []\<rparr>"
  by code_simp

text \<open>
  Claim C4: \<open>parse_recipe_data\<close> returns a record for every text (no group lookup and
  no indexing in it can fail), and for the empty text the record has an empty title,
  no calories, no protein and empty lists of ingredients, directions and tips.
\<close>

theorem parse_total:
  "(\<exists>r. parse_recipe_data raw = Inr r)
   \<and> parse_recipe_data [] =
       Inr \<lparr>title = [], calories = [], protein = [], ingredients = [], directions = [],
            pro_tips = []\<rparr>"
  using parse_recipe_data_parts [of raw] empty_parse by auto


section \<open>Tips without a number\<close>

fun has_numbered :: "string \<Rightarrow> bool" where
  \<comment> \<open>somewhere in the text a digit stands right before a period\<close>
  "has_numbered [] = False"
| "has_numbered (a # s) = ((is_digit a \<and> startswith s ''.'') \<or> has_numbered s)"

lemma has_numbered_append: "is_digit d \<Longrightarrow> has_numbered (u @ d # CHR ''.'' # v)"
  by (induction u) simp_all

lemma digits_then_period:
  assumes "rep_greedy [DOTALL] (In [Digit]) (Suc 0) None
      (m [DOTALL] (Cat (Chr (In [Lit CHR ''.''])) r) k) st = Some x"
  shows "has_numbered (rest st)"
proof -
  from rep_greedy_result [OF assms] obtain w s' p'
    where w: "rest st = w @ s'" "list_all (cset_match [DOTALL] (In [Digit])) w" "Suc 0 \<le> length w"
      "m [DOTALL] (Cat (Chr (In [Lit CHR ''.''])) r) k (St (pos st + length w) p' s' (marks st))
         = Some x"
    unfolding rep_result_def by auto
  from w(4) obtain v where s': "s' = CHR ''.'' # v"
    by (cases s') (auto simp: items_match_def split: if_splits)
  from w(2,3) obtain u d where "w = u @ [d]" "is_digit d"
    by (cases w rule: rev_cases) (auto simp: items_match_def)
  with w(1) s' have "rest st = u @ d # CHR ''.'' # v"
    by simp
  with \<open>is_digit d\<close> show ?thesis
    using has_numbered_append by simp
qed

lemma numbered_needs_digit_period:
  assumes "m [DOTALL] numbered_pattern k st = Some x"
  shows "has_numbered (rest st)"
  using assms by (simp add: numbered_pattern_def) (erule digits_then_period)

lemma search_numbered_none:
  "\<not> has_numbered s \<Longrightarrow> search_from [DOTALL] numbered_pattern adv (St i p s g) = None"
proof (induction s arbitrary: i p adv)
  case Nil
  then have "m [DOTALL] numbered_pattern (accept adv i) (St i p [] g) = None"
    using numbered_needs_digit_period [of "accept adv i" "St i p [] g"]
    by (cases "m [DOTALL] numbered_pattern (accept adv i) (St i p [] g)") auto
  then show ?case
    by simp
next
  case (Cons c s)
  then have "m [DOTALL] numbered_pattern (accept adv i) (St i p (c # s) g) = None"
    using numbered_needs_digit_period [of "accept adv i" "St i p (c # s) g"]
    by (cases "m [DOTALL] numbered_pattern (accept adv i) (St i p (c # s) g)") auto
  moreover from Cons.prems have "\<not> has_numbered s"
    by simp
  ultimately show ?case
    using Cons.IH by simp
qed

lemma findall_numbered_none:
  "\<not> has_numbered s \<Longrightarrow> re_findall numbered_pattern [DOTALL] s = []"
  by (simp add: re_findall_def find_iter.simps search_numbered_none)

text \<open>
  Claim C7: for every text in which the region after the \<^verbatim>\<open>PRO TIP\<close> marker holds no
  digit right before a period (no segment that starts with digits and a period),
  \<open>parse_recipe_data\<close> returns a record with an empty list of tips: a tip without a
  number is dropped.
\<close>

theorem unnumbered_tips_dropped:
  assumes "\<forall>region. pro_tips_section (clean_text raw) = Inr (Some region)
             \<longrightarrow> \<not> has_numbered region"
  shows "\<exists>r. parse_recipe_data raw = Inr r \<and> pro_tips r = []"
proof -
  from parse_recipe_data_parts [of raw] obtain r x
    where r: "parse_recipe_data raw = Inr r" "pro_tips r = x"
      and x: "parse_pro_tips (clean_text raw) = Inr x"
    by auto
  obtain sec where sec: "pro_tips_section (clean_text raw) = Inr sec"
    using section_total [OF pattern_groups(8)] unfolding pro_tips_section_def by blast
  have "x = []"
  proof (cases sec)
    case None
    with sec x show ?thesis
      by (simp add: parse_pro_tips_def)
  next
    case (Some region)
    with sec assms have "\<not> has_numbered region"
      by simp
    with sec Some x show ?thesis
      by (simp add: parse_pro_tips_def findall_numbered_none)
  qed
  with r show ?thesis
    by simp
qed

theorem unnumbered_tips_dropped_witness:
  "pro_tips_section (clean_text example_text) = Inr (Some ''Use low-sodium bacon'')
   \<and> \<not> has_numbered ''Use low-sodium bacon''
   \<and> (\<exists>r. parse_recipe_data example_text = Inr r \<and> pro_tips r = [])"
proof -
  have sec: "pro_tips_section (clean_text example_text) = Inr (Some ''Use low-sodium bacon'')"
    by code_simp
  have no: "\<not> has_numbered ''Use low-sodium bacon''"
    by code_simp
  from sec no
  have "\<forall>region. pro_tips_section (clean_text example_text) = Inr (Some region)
          \<longrightarrow> \<not> has_numbered region"
    by simp
  from unnumbered_tips_dropped [OF this] sec no show ?thesis
    by blast
qed


section \<open>Substitution of runs of a class\<close>

text \<open>
  What \<^verbatim>\<open>re.sub\<close> does for a pattern \<^verbatim>\<open>[...]+\<close>: every maximal run of characters of the class
  becomes the replacement.
\<close>

function squeeze :: "(char \<Rightarrow> bool) \<Rightarrow> string \<Rightarrow> string \<Rightarrow> string" where
  "squeeze P repl [] = []"
| "squeeze P repl (c # s) =
     (if P c then repl @ squeeze P repl (dropWhile P s) else c # squeeze P repl s)"
  by pat_completeness auto
termination
  by (relation "measure (\<lambda>(P, repl, s). length s)")
    (auto simp: length_dropWhile_le less_Suc_eq_le)

lemma squeeze_none: "\<forall>c \<in> set s. \<not> P c \<Longrightarrow> squeeze P repl s = s"
  by (induction s) simp_all

lemma squeeze_split:
  "squeeze P repl s =
     takeWhile (\<lambda>c. \<not> P c) s
     @ (if dropWhile (\<lambda>c. \<not> P c) s = [] then []
        else repl @ squeeze P repl (dropWhile P (dropWhile (\<lambda>c. \<not> P c) s)))"
proof (induction s)
  case Nil
  show ?case
    by simp
next
  case (Cons c s)
  show ?case
  proof (cases "P c")
    case True
    then show ?thesis
      by simp
  next
    case False
    with Cons show ?thesis
      by simp
  qed
qed

lemma set_squeeze:
  "c \<in> set (squeeze P repl s) \<Longrightarrow> (c \<in> set s \<and> \<not> P c) \<or> c \<in> set repl"
proof (induction P repl s rule: squeeze.induct)
  case (1 P repl)
  then show ?case
    by simp
next
  case (2 P repl a s)
  show ?case
  proof (cases "P a")
    case True
    with 2 have "c \<in> set repl \<or> (c \<in> set (dropWhile P s) \<and> \<not> P c)"
      by auto
    then show ?thesis
      using set_dropWhileD by fastforce
  next
    case False
    with 2 show ?thesis
      by auto
  qed
qed

lemma length_squeeze: "length repl \<le> 1 \<Longrightarrow> length (squeeze P repl s) \<le> length s"
proof (induction P repl s rule: squeeze.induct)
  case (1 P repl)
  then show ?case
    by simp
next
  case (2 P repl a s)
  show ?case
  proof (cases "P a")
    case True
    with 2 have "length (squeeze P repl (dropWhile P s)) \<le> length (dropWhile P s)"
      by simp
    also have "\<dots> \<le> length s"
      by (rule length_dropWhile_le)
    finally show ?thesis
      using True "2.prems" by simp
  next
    case False
    with 2 show ?thesis
      by simp
  qed
qed

text \<open>The greedy repetition without a bound takes the whole run.\<close>

lemma rep_greedy_takes_all:
  assumes "mn \<le> length (takeWhile (cset_match f cs) s)"
    and "adv \<longrightarrow> i0 \<noteq> i + length (takeWhile (cset_match f cs) s)"
  shows "\<exists>p'. rep_greedy f cs mn None (accept adv i0) (St i p s g)
           = Some (St (i + length (takeWhile (cset_match f cs) s)) p'
                (dropWhile (cset_match f cs) s) g)"
  using assms
proof (induction s arbitrary: i p mn)
  case Nil
  then show ?case
    by (auto simp: accept_def)
next
  case (Cons c s)
  show ?case
  proof (cases "cset_match f cs c")
    case True
    from Cons.prems True have "mn - 1 \<le> length (takeWhile (cset_match f cs) s)"
      and "adv \<longrightarrow> i0 \<noteq> Suc i + length (takeWhile (cset_match f cs) s)"
      by simp_all
    from Cons.IH [OF this] obtain p'
      where "rep_greedy f cs (mn - 1) None (accept adv i0) (St (Suc i) (Some c) s g)
           = Some (St (Suc i + length (takeWhile (cset_match f cs) s)) p'
                (dropWhile (cset_match f cs) s) g)"
      by blast
    with True show ?thesis
      by simp
  next
    case False
    with Cons.prems show ?thesis
      by (auto simp: accept_def)
  qed
qed

lemma m_plus_none:
  "s = [] \<or> \<not> cset_match f cs (hd s) \<Longrightarrow> m f (plus cs) k (St i p s g) = None"
  by (cases s) auto

lemma search_plus_none:
  "\<forall>c \<in> set s. \<not> cset_match f cs c \<Longrightarrow> search_from f (plus cs) adv (St i p s g) = None"
  by (induction s arbitrary: i p adv) (simp_all add: m_plus_none)

lemma search_plus_some:
  assumes "dropWhile (\<lambda>c. \<not> cset_match f cs c) s \<noteq> []"
  shows "\<exists>p'. search_from f (plus cs) adv (St i p s g)
     = Some (i + length (takeWhile (\<lambda>c. \<not> cset_match f cs c) s),
         St (i + length (takeWhile (\<lambda>c. \<not> cset_match f cs c) s)
              + length (takeWhile (cset_match f cs) (dropWhile (\<lambda>c. \<not> cset_match f cs c) s)))
            p'
            (dropWhile (cset_match f cs) (dropWhile (\<lambda>c. \<not> cset_match f cs c) s)) g)"
  using assms
proof (induction s arbitrary: i p adv)
  case Nil
  then show ?case
    by simp
next
  case (Cons c s)
  show ?case
  proof (cases "cset_match f cs c")
    case True
    then have "1 \<le> length (takeWhile (cset_match f cs) (c # s))"
      and "adv \<longrightarrow> i \<noteq> i + length (takeWhile (cset_match f cs) (c # s))"
      by simp_all
    from rep_greedy_takes_all [OF this, of p g] obtain p'
      where "rep_greedy f cs 1 None (accept adv i) (St i p (c # s) g)
           = Some (St (i + length (takeWhile (cset_match f cs) (c # s))) p'
                (dropWhile (cset_match f cs) (c # s)) g)"
      by blast
    then have "m f (plus cs) (accept adv i) (St i p (c # s) g)
           = Some (St (i + length (takeWhile (cset_match f cs) (c # s))) p'
                (dropWhile (cset_match f cs) (c # s)) g)"
      by (simp only: m.simps if_True)
    with True show ?thesis
      by (simp del: m.simps)
  next
    case False
    then have none: "m f (plus cs) (accept adv i) (St i p (c # s) g) = None"
      by (simp add: m_plus_none)
    from False Cons.prems have "dropWhile (\<lambda>c. \<not> cset_match f cs c) s \<noteq> []"
      by simp
    from Cons.IH [OF this, of False "Suc i" "Some c"] obtain p'
      where "search_from f (plus cs) False (St (Suc i) (Some c) s g)
     = Some (Suc i + length (takeWhile (\<lambda>c. \<not> cset_match f cs c) s),
         St (Suc i + length (takeWhile (\<lambda>c. \<not> cset_match f cs c) s)
              + length (takeWhile (cset_match f cs) (dropWhile (\<lambda>c. \<not> cset_match f cs c) s)))
            p'
            (dropWhile (cset_match f cs) (dropWhile (\<lambda>c. \<not> cset_match f cs c) s)) g)"
      by blast
    with False none show ?thesis
      by (simp del: m.simps)
  qed
qed


lemma sub_plus_from:
  "sub_build t repl i (find_iter f (plus cs) adv (St i p (drop i t) g))
     = squeeze (cset_match f cs) repl (drop i t)"
proof (induction "length t - i" arbitrary: i p g adv rule: less_induct)
  case less
  let ?P = "cset_match f cs"
  let ?s = "drop i t"
  let ?u = "takeWhile (\<lambda>c. \<not> ?P c) ?s"
  let ?v = "dropWhile (\<lambda>c. \<not> ?P c) ?s"
  let ?w = "takeWhile ?P ?v"
  let ?r = "dropWhile ?P ?v"
  show ?case
  proof (cases "?v = []")
    case True
    then have no: "\<forall>c \<in> set ?s. \<not> ?P c"
      by (simp add: dropWhile_eq_Nil_conv)
    then have "search_from f (plus cs) adv (St i p ?s g) = None"
      by (rule search_plus_none)
    then have "find_iter f (plus cs) adv (St i p ?s g) = []"
      by (subst find_iter.simps) simp
    with no show ?thesis
      by (simp add: squeeze_none)
  next
    case False
    let ?b = "i + length ?u"
    let ?e = "?b + length ?w"
    from search_plus_some [OF False, of adv i p g] obtain p'
      where found: "search_from f (plus cs) adv (St i p ?s g) = Some (?b, St ?e p' ?r g)"
      by blast
    have parts: "?s = ?u @ ?w @ ?r"
      by simp
    have "?P (hd ?v)"
      using hd_dropWhile [OF False] by simp
    with False have w: "?w \<noteq> []"
      by (cases ?v) simp_all
    have "drop (length ?u + length ?w) ?s = ?r"
      by (subst parts) (simp del: takeWhile_dropWhile_id)
    then have r: "?r = drop ?e t"
      by (simp add: add.commute add.assoc)
    from False have "i < length t"
      by (cases "i < length t") simp_all
    with w have "length t - ?e < length t - i"
      by (cases ?w) simp_all
    from less [OF this, of "?e = ?b" p' "[]"] r
    have later: "sub_build t repl ?e (find_iter f (plus cs) (?e = ?b) (St ?e p' ?r []))
        = squeeze ?P repl ?r"
      by simp
    have "take (length ?u) ?s = ?u"
      by (subst parts) (simp del: takeWhile_dropWhile_id)
    then have front: "slice t i ?b = ?u"
      by (simp add: slice_def)
    have "sub_build t repl i (find_iter f (plus cs) adv (St i p ?s g))
        = slice t i ?b @ repl @ sub_build t repl ?e (find_iter f (plus cs) (?e = ?b) (St ?e p' ?r []))"
      using found by (subst find_iter.simps) simp
    also have "\<dots> = ?u @ repl @ squeeze ?P repl ?r"
      by (simp only: front later)
    also have "\<dots> = squeeze ?P repl ?s"
      using False squeeze_split [of ?P repl ?s] by auto
    finally show ?thesis .
  qed
qed

lemma re_sub_plus: "re_sub (plus cs) repl t = squeeze (cset_match [] cs) repl t"
  using sub_plus_from [of t repl 0 "[]" cs False None "[]"] by (simp add: re_sub_def)

lemma space_class: "cset_match [] (In [Space]) c = is_space c"
  by (simp add: items_match_def)

lemma clean_text_squeeze: "clean_text raw = squeeze is_space '' '' (strip raw)"
proof -
  have "cset_match [] (In [Space]) = is_space"
    by (rule ext) (rule space_class)
  then show ?thesis
    unfolding clean_text_def space_run_def re_sub_plus by simp
qed

lemma newline_is_space: "is_space (CHR 0x0A)"
  by (simp add: is_space_def in_range_def)

lemma clean_text_no_newline: "CHR 0x0A \<notin> set (clean_text raw)"
proof
  assume "CHR 0x0A \<in> set (clean_text raw)"
  then have "(CHR 0x0A \<in> set (strip raw) \<and> \<not> is_space (CHR 0x0A)) \<or> CHR 0x0A \<in> set '' ''"
    unfolding clean_text_squeeze by (rule set_squeeze)
  then show False
    using newline_is_space by simp
qed



section \<open>The ingredients are one entry\<close>

lemma in_set_slice: "x \<in> set (slice t b e) \<Longrightarrow> x \<in> set t"
  unfolding slice_def by (meson in_set_takeD in_set_dropD)

lemma group_chars: "re_search pat f t = Some mt \<Longrightarrow> group mt n = Inr g \<Longrightarrow> set g \<subseteq> set t"
  by (auto simp: re_search_def group_def split: option.splits prod.splits dest: in_set_slice)

lemma ingredients_section_chars:
  "ingredients_section t = Inr (Some region) \<Longrightarrow> set region \<subseteq> set t"
  using group_chars
  by (fastforce simp: ingredients_section_def split: option.splits sum.splits)

lemma split_chr_single: "sep \<notin> set s \<Longrightarrow> split_chr sep s = [s]"
  by (induction s) auto

lemma length_ingredient_lines_single: "length (ingredient_lines [x]) \<le> 1"
  by (simp add: Let_def)

text \<open>
  Claim C3: for every text, the cleaned text holds no newline, so the region between
  the markers is split into one line, and the ingredients are what the loop body makes
  of that one line: at most one entry (the stripped region without its leading
  marker), never one entry per bulleted item.
\<close>

theorem ingredients_single_entry:
  "\<exists>r. parse_recipe_data raw = Inr r
     \<and> CHR 0x0A \<notin> set (clean_text raw)
     \<and> length (ingredients r) \<le> 1
     \<and> ingredients r =
         (case ingredients_section (clean_text raw) of
            Inr (Some region) \<Rightarrow> ingredient_lines [region]
          | _ \<Rightarrow> [])"
proof -
  from parse_recipe_data_parts [of raw] obtain r i
    where r: "parse_recipe_data raw = Inr r" "ingredients r = i"
      and i: "parse_ingredients (clean_text raw) = Inr i"
    by auto
  obtain sec where sec: "ingredients_section (clean_text raw) = Inr sec"
    using section_total [OF pattern_groups(6)] unfolding ingredients_section_def by blast
  have "i = (case sec of Some region \<Rightarrow> ingredient_lines [region] | None \<Rightarrow> [])"
  proof (cases sec)
    case None
    with sec i show ?thesis
      by (simp add: parse_ingredients_def)
  next
    case (Some region)
    with sec have "set region \<subseteq> set (clean_text raw)"
      using ingredients_section_chars by simp
    then have "CHR 0x0A \<notin> set region"
      using clean_text_no_newline by blast
    then have "split_chr (CHR 0x0A) region = [region]"
      by (rule split_chr_single)
    with sec Some i show ?thesis
      by (simp add: parse_ingredients_def)
  qed
  moreover from this have "length i \<le> 1"
    using length_ingredient_lines_single by (cases sec) simp_all
  ultimately show ?thesis
    using r sec clean_text_no_newline by (cases sec) auto
qed

theorem ingredients_single_entry_witness:
  "ingredients_section (clean_text bulleted_text)
     = Inr (Some ''- 2 eggs - 2 turkey bacon strips '')
   \<and> ingredient_lines [''- 2 eggs - 2 turkey bacon strips ''] = [''2 eggs - 2 turkey bacon strips'']
   \<and> (\<exists>r. parse_recipe_data bulleted_text = Inr r
         \<and> ingredients r = [''2 eggs - 2 turkey bacon strips''])"
proof -
  have sec: "ingredients_section (clean_text bulleted_text)
      = Inr (Some ''- 2 eggs - 2 turkey bacon strips '')"
    by code_simp
  have one: "ingredient_lines [''- 2 eggs - 2 turkey bacon strips '']
      = [''2 eggs - 2 turkey bacon strips'']"
    by code_simp
  from ingredients_single_entry [of bulleted_text] sec one show ?thesis
    by auto
qed


section \<open>Substitution of single characters of a class\<close>

text \<open>
  What \<^verbatim>\<open>re.sub\<close> does for a pattern that is one class when the replacement is empty: the
  characters of the class are removed.
\<close>

lemma search_chr_none:
  "\<forall>c \<in> set s. \<not> cset_match f cs c \<Longrightarrow> search_from f (Chr cs) adv (St i p s g) = None"
  by (induction s arbitrary: i p adv) simp_all

lemma search_chr_some:
  assumes "dropWhile (\<lambda>c. \<not> cset_match f cs c) s \<noteq> []"
  shows "search_from f (Chr cs) adv (St i p s g)
     = Some (i + length (takeWhile (\<lambda>c. \<not> cset_match f cs c) s),
         St (Suc (i + length (takeWhile (\<lambda>c. \<not> cset_match f cs c) s)))
            (Some (hd (dropWhile (\<lambda>c. \<not> cset_match f cs c) s)))
            (tl (dropWhile (\<lambda>c. \<not> cset_match f cs c) s)) g)"
  using assms by (induction s arbitrary: i p adv) (auto simp: accept_def)

lemma sub_chr_from:
  "sub_build t [] i (find_iter f (Chr cs) adv (St i p (drop i t) g))
     = filter (\<lambda>c. \<not> cset_match f cs c) (drop i t)"
proof (induction "length t - i" arbitrary: i p g adv rule: less_induct)
  case less
  let ?Q = "\<lambda>c. \<not> cset_match f cs c"
  let ?s = "drop i t"
  let ?u = "takeWhile ?Q ?s"
  let ?v = "dropWhile ?Q ?s"
  show ?case
  proof (cases "?v = []")
    case True
    then have no: "\<forall>c \<in> set ?s. ?Q c"
      by (simp add: dropWhile_eq_Nil_conv)
    then have "search_from f (Chr cs) adv (St i p ?s g) = None"
      by (rule search_chr_none)
    then have "find_iter f (Chr cs) adv (St i p ?s g) = []"
      by (subst find_iter.simps) simp
    with no show ?thesis
      by simp
  next
    case False
    let ?b = "i + length ?u"
    let ?e = "Suc ?b"
    have found: "search_from f (Chr cs) adv (St i p ?s g)
        = Some (?b, St ?e (Some (hd ?v)) (tl ?v) g)"
      using False by (rule search_chr_some)
    have parts: "?s = ?u @ ?v"
      by simp
    have "drop (length ?u) ?s = ?v"
      by (subst parts) (simp del: takeWhile_dropWhile_id)
    then have "tl ?v = tl (drop (length ?u) ?s)"
      by (simp only:)
    also have "\<dots> = drop (Suc (length ?u)) ?s"
      by (simp only: drop_Suc tl_drop)
    also have "\<dots> = drop ?e t"
      by (simp add: add.commute)
    finally have r: "tl ?v = drop ?e t" .
    from False have "i < length t"
      by (cases "i < length t") simp_all
    then have "length t - ?e < length t - i"
      by simp
    from less [OF this, of "?e = ?b" "Some (hd ?v)" "[]"] r
    have later: "sub_build t [] ?e (find_iter f (Chr cs) (?e = ?b) (St ?e (Some (hd ?v)) (tl ?v) []))
        = filter ?Q (tl ?v)"
      by simp
    have "take (length ?u) ?s = ?u"
      by (subst parts) (simp del: takeWhile_dropWhile_id)
    then have front: "slice t i ?b = ?u"
      by (simp add: slice_def)
    have "sub_build t [] i (find_iter f (Chr cs) adv (St i p ?s g))
        = slice t i ?b @ sub_build t [] ?e (find_iter f (Chr cs) (?e = ?b) (St ?e (Some (hd ?v)) (tl ?v) []))"
      using found by (subst find_iter.simps) simp
    also have "\<dots> = ?u @ filter ?Q (tl ?v)"
      by (simp only: front later)
    also have "\<dots> = filter ?Q ?s"
    proof -
      have "\<not> ?Q (hd ?v)"
        using hd_dropWhile [OF False] by simp
      with False have "filter ?Q ?v = filter ?Q (tl ?v)"
        by (cases ?v) simp_all
      moreover have "filter ?Q ?u = ?u"
        by (auto simp: filter_id_conv dest: set_takeWhileD)
      ultimately have "filter ?Q (?u @ ?v) = ?u @ filter ?Q (tl ?v)"
        by (simp only: filter_append)
      then show ?thesis
        by simp
    qed
    finally show ?thesis .
  qed
qed

lemma re_sub_chr: "re_sub (Chr cs) [] t = filter (\<lambda>c. \<not> cset_match [] cs c) t"
  using sub_chr_from [of t 0 "[]" cs False None "[]"] by (simp add: re_sub_def)

section \<open>File names\<close>

definition name_chr :: "char \<Rightarrow> bool" where
  \<comment> \<open>a word character or a hyphen\<close>
  "name_chr c \<longleftrightarrow> is_word c \<or> c = CHR ''-''"

lemma name_chr_no_space: "name_chr c \<Longrightarrow> \<not> is_space c"
  by (cases c) (auto simp: name_chr_def is_word_def is_space_def in_range_def)

lemma name_chr_legal:
  "name_chr c \<Longrightarrow>
     \<not> cset_match [] (In [Lit CHR ''<'', Lit CHR ''>'', Lit CHR '':'', Lit (CHR 0x22), Lit CHR ''/'',
       Lit (CHR 0x5C), Lit CHR ''|'', Lit CHR ''?'', Lit CHR ''*'']) c"
  by (auto simp: items_match_def name_chr_def is_word_def in_range_def)

lemma odd_class:
  "items_match [] [Word, Space, Lit CHR ''-''] c \<longleftrightarrow> name_chr c \<or> is_space c"
  by (auto simp: items_match_def name_chr_def)

lemma underscore_name: "name_chr CHR ''_''"
  by (simp add: name_chr_def is_word_def)

lemma strip_subset: "set (strip s) \<subseteq> set s"
proof -
  have "set (strip s) \<subseteq> set (dropWhile is_space s)"
    unfolding strip_def using set_dropWhileD by fastforce
  also have "\<dots> \<subseteq> set s"
    using set_dropWhileD by fastforce
  finally show ?thesis .
qed

lemma dropWhile_none: "\<forall>c \<in> set s. \<not> P c \<Longrightarrow> dropWhile P s = s"
  by (cases s) simp_all

lemma strip_none: "\<forall>c \<in> set s. \<not> is_space c \<Longrightarrow> strip s = s"
  by (simp add: strip_def dropWhile_none)

lemma rstrip_chr_subset: "set (rstrip_chr x s) \<subseteq> set s"
  unfolding rstrip_chr_def using set_dropWhileD by fastforce

text \<open>The file name is never empty, has at most 50 characters, all of them word
  characters or hyphens.\<close>

lemma sanitize_result:
  "sanitize_filename t \<noteq> [] \<and> length (sanitize_filename t) \<le> 50
     \<and> (\<forall>c \<in> set (sanitize_filename t). name_chr c)"
proof -
  define s1 where "s1 = re_sub illegal_chr [] t"
  define s2 where "s2 = re_sub odd_chr [] s1"
  define s3 where "s3 = strip (re_sub space_run '' '' s2)"
  define s4 where "s4 = replace_chr CHR '' '' CHR ''_'' s3"
  define s5 where "s5 = (if length s4 > 50 then rstrip_chr CHR ''_'' (take 50 s4) else s4)"
  have result: "sanitize_filename t = (if s5 \<noteq> [] then s5 else ''recipe'')"
    by (simp add: sanitize_filename_def Let_def s1_def s2_def s3_def s4_def s5_def)
  have "\<forall>c \<in> set s2. name_chr c \<or> is_space c"
    by (simp add: s2_def odd_chr_def re_sub_chr odd_class)
  moreover have "cset_match [] (In [Space]) = is_space"
    by (rule ext) (rule space_class)
  then have "re_sub space_run '' '' s2 = squeeze is_space '' '' s2"
    unfolding space_run_def re_sub_plus by simp
  ultimately have "\<forall>c \<in> set (re_sub space_run '' '' s2). name_chr c \<or> c = CHR '' ''"
    using set_squeeze [of _ is_space "'' ''" s2] by fastforce
  then have "\<forall>c \<in> set s3. name_chr c \<or> c = CHR '' ''"
    using strip_subset unfolding s3_def by blast
  then have s4: "\<forall>c \<in> set s4. name_chr c"
    using underscore_name by (auto simp: s4_def replace_chr_def)
  have "set s5 \<subseteq> set s4"
    using rstrip_chr_subset [of "CHR ''_''" "take 50 s4"] set_take_subset [of 50 s4]
    by (auto simp: s5_def)
  with s4 have chars: "\<forall>c \<in> set s5. name_chr c"
    by blast
  have "length (rstrip_chr CHR ''_'' (take 50 s4)) \<le> length (take 50 s4)"
    by (simp add: rstrip_chr_def length_dropWhile_le [of _ "rev (take 50 s4)", simplified])
  then have len: "length s5 \<le> 50"
    by (simp add: s5_def)
  have "\<forall>c \<in> set ''recipe''. name_chr c"
    by (simp add: name_chr_def is_word_def in_range_def)
  with chars len show ?thesis
    unfolding result by simp
qed

text \<open>A file name of that form is left as it is.\<close>

lemma sanitize_fixed:
  assumes "r \<noteq> []" and "length r \<le> 50" and "\<forall>c \<in> set r. name_chr c"
  shows "sanitize_filename r = r"
proof -
  have s1: "re_sub illegal_chr [] r = r"
    using assms(3) name_chr_legal by (simp add: illegal_chr_def re_sub_chr filter_id_conv)
  have s2: "re_sub odd_chr [] r = r"
    using assms(3) by (simp add: odd_chr_def re_sub_chr filter_id_conv odd_class)
  have no_space: "\<forall>c \<in> set r. \<not> is_space c"
    using assms(3) name_chr_no_space by blast
  have "cset_match [] (In [Space]) = is_space"
    by (rule ext) (rule space_class)
  then have "re_sub space_run '' '' r = squeeze is_space '' '' r"
    unfolding space_run_def re_sub_plus by simp
  with no_space have "re_sub space_run '' '' r = r"
    by (simp add: squeeze_none)
  with no_space have s3: "strip (re_sub space_run '' '' r) = r"
    by (simp add: strip_none)
  have "is_space CHR '' ''"
    by (simp add: is_space_def in_range_def)
  with no_space have "\<forall>c \<in> set r. c \<noteq> CHR '' ''"
    by blast
  then have s4: "replace_chr CHR '' '' CHR ''_'' r = r"
    by (simp add: replace_chr_def map_idI)
  from assms(1,2) show ?thesis
    by (simp add: sanitize_filename_def Let_def s1 s2 s3 s4)
qed

text \<open>
  Claim C9: sanitising a sanitised title returns the same string. It holds for every
  title, so in particular for the titles of at most 50 characters made of word
  characters, spaces and hyphens.
\<close>

theorem sanitize_idempotent:
  "sanitize_filename (sanitize_filename t) = sanitize_filename t"
  using sanitize_result [of t] by (intro sanitize_fixed) simp_all

theorem sanitize_idempotent_witness:
  "sanitize_filename ''Turkey Bacon - Breakfast Burrito'' = ''Turkey_Bacon_-_Breakfast_Burrito''
   \<and> sanitize_filename ''Turkey_Bacon_-_Breakfast_Burrito'' = ''Turkey_Bacon_-_Breakfast_Burrito''"
proof -
  have once: "sanitize_filename ''Turkey Bacon - Breakfast Burrito''
      = ''Turkey_Bacon_-_Breakfast_Burrito''"
    by code_simp
  from sanitize_idempotent [of "''Turkey Bacon - Breakfast Burrito''"] show ?thesis
    unfolding once by simp
qed

end
